theory Spec2Isabelle
  imports Main "HOL-Library.AList"
begin

section \<open>Python strings and integers\<close>

text \<open>
  A Python \<open>str\<close> is modelled as a \<open>string\<close>, one \<open>char\<close> per code point; the model
  therefore covers text whose code points are below 256.  Python's \<open>int\<close> is unbounded and
  is modelled as \<open>int\<close>.  The three characters that the source writes with an escape are
  named here.
\<close>

definition bslash :: char where
  "bslash = CHR 0x5C"

definition tab :: char where
  "tab = CHR 0x09"

definition newline :: char where
  "newline = CHR 0x0A"

definition carriage_return :: char where
  "carriage_return = CHR 0x0D"

text \<open>
  \<open>str.isspace\<close> on one code point, which is also what \<open>\s\<close> matches in a \<open>str\<close>
  pattern: the code points 9 to 13, 28 to 32, 133 and 160.  \<open>int\<close> strips fewer: it
  leaves the four separators 28 to 31 in place.
\<close>

definition py_isspace :: "char \<Rightarrow> bool" where
  "py_isspace c = (of_char c \<in> {9, 10, 11, 12, 13, 28, 29, 30, 31, 32, 133, 160 :: nat})"

definition int_isspace :: "char \<Rightarrow> bool" where
  "int_isspace c = (of_char c \<in> {9, 10, 11, 12, 13, 32, 133, 160 :: nat})"

definition py_isdigit :: "char \<Rightarrow> bool" where
  "py_isdigit c = (c \<in> set ''0123456789'')"

definition digit_val :: "char \<Rightarrow> nat" where
  "digit_val c = of_char c - 48"

text \<open>
  \<open>str.lower\<close>: the letters A to Z, and the upper-case letters of the Latin-1 block
  (192 to 222 except the multiplication sign 215), move up by 32.
\<close>

definition lower_char :: "char \<Rightarrow> char" where
  "lower_char c =
     (let n = (of_char c :: nat)
      in if (65 \<le> n \<and> n \<le> 90) \<or> (192 \<le> n \<and> n \<le> 222 \<and> n \<noteq> 215)
         then char_of (n + 32) else c)"

definition lower :: "string \<Rightarrow> string" where
  "lower s = map lower_char s"

text \<open>\<open>str(n)\<close> for an integer: the decimal digits, after a minus sign when negative.\<close>

fun str_nat :: "nat \<Rightarrow> string" where
  "str_nat n =
     (if n < 10 then [''0123456789'' ! n]
      else str_nat (n div 10) @ [''0123456789'' ! (n mod 10)])"

declare str_nat.simps [simp del]

definition py_str :: "int \<Rightarrow> string" where
  "py_str i = (if i < 0 then CHR ''-'' # str_nat (nat (- i)) else str_nat (nat i))"

text \<open>
  \<open>int(s)\<close> for a string in base 10: white space is stripped at both ends (by \<open>strip\<close>
  below, which is the stripping of \<open>int\<close>, not \<open>str.strip\<close>), one sign may
  follow, then come digits, where a single underscore may stand between two digits.
  Anything else raises \<open>ValueError\<close>, which is \<open>None\<close> here.  (The limit that recent
  interpreters put on the number of digits is not modelled.)
\<close>

fun int_digits :: "nat \<Rightarrow> string \<Rightarrow> nat option" where
  "int_digits acc [] = Some acc"
| "int_digits acc [c] =
     (if py_isdigit c then Some (acc * 10 + digit_val c) else None)"
| "int_digits acc (c # d # ds) =
     (if py_isdigit c then int_digits (acc * 10 + digit_val c) (d # ds)
      else if c = CHR ''_'' \<and> py_isdigit d then int_digits (acc * 10 + digit_val d) ds
      else None)"

definition int_unsigned :: "string \<Rightarrow> nat option" where
  "int_unsigned s =
     (case s of
        [] \<Rightarrow> None
      | c # cs \<Rightarrow> if py_isdigit c then int_digits (digit_val c) cs else None)"

definition strip :: "string \<Rightarrow> string" where
  "strip s = rev (dropWhile int_isspace (rev (dropWhile int_isspace s)))"

definition py_int :: "string \<Rightarrow> int option" where
  "py_int s =
     (case strip s of
        [] \<Rightarrow> None
      | c # cs \<Rightarrow>
          if c = CHR ''-'' then map_option (\<lambda>n. - int n) (int_unsigned cs)
          else if c = CHR ''+'' then map_option int (int_unsigned cs)
          else map_option int (int_unsigned (c # cs)))"

text \<open>\<open>s.split(sep)\<close> for a one-character separator; the result is never empty.\<close>

fun py_split :: "char \<Rightarrow> string \<Rightarrow> string list" where
  "py_split sep [] = [[]]"
| "py_split sep (c # cs) =
     (if c = sep then [] # py_split sep cs
      else (case py_split sep cs of
              [] \<Rightarrow> [[c]]
            | f # fs \<Rightarrow> (c # f) # fs))"

section \<open>The node formatter\<close>

text \<open>The module's palette \<open>_COLORS\<close> and the shape table local to \<open>choose_node_format\<close>.\<close>

definition COLORS :: "string list" where
  "COLORS = [''#eecc80'', ''#ccee80'', ''#80ccee'', ''#eecc80'', ''#80eecc'']"

definition shapes :: "string list" where
  "shapes = [''box'', ''ellipse'', ''octagon'', ''hexagon'', ''diamond'']"

text \<open>
  \<open>_escape_underscores\<close>: with \<open>for_latex\<close>, \<open>re.sub(r'_', r'\\\\_', s)\<close> puts two
  backslashes before every underscore (the replacement template halves the four it is
  written with).
\<close>

definition escape_underscores :: "string \<Rightarrow> bool \<Rightarrow> string" where
  "escape_underscores s for_latex =
     (if for_latex
      then concat (map (\<lambda>c. if c = CHR ''_'' then [bslash, bslash, CHR ''_''] else [c]) s)
      else s)"

text \<open>
  \<open>choose_node_format\<close>.  Python's \<open>%\<close> with a positive right operand is \<open>mod\<close> on
  \<open>int\<close>: both give a result from 0 to 4, so neither list index is ever out of range.
  Both branches on \<open>for_latex\<close> append the same text to the label, as in the source.
\<close>

definition choose_node_format ::
  "string \<Rightarrow> int \<Rightarrow> int \<Rightarrow> bool \<Rightarrow> bool \<Rightarrow> bool \<Rightarrow> string \<times> string \<times> string" where
  "choose_node_format node nest_level src_line defined_somewhere for_latex multi_page =
     (let sl = [bslash, bslash];
          color = (if nest_level = 0 then COLORS ! 0
                   else COLORS ! nat ((nest_level - 1) mod 5));
          shape = (if nest_level = 0 then ''box''
                   else shapes ! nat (nest_level mod 5));
          label0 = escape_underscores node for_latex;
          label1 = (if src_line \<noteq> - 1
                    then (if for_latex then label0 @ [bslash, CHR ''n''] @ py_str src_line
                          else label0 @ [bslash, CHR ''n''] @ py_str src_line)
                    else label0);
          label2 = (if multi_page
                    then (if src_line \<noteq> - 1
                          then sl @ ''descitem{'' @ node @ ''}'' @ [bslash, CHR ''n''] @ label1
                          else if defined_somewhere
                               then sl @ ''descref['' @ label1 @ '']{'' @ node @ ''}''
                               else label1)
                    else label1)
      in (label2, color, shape))"

section \<open>The text normaliser\<close>

text \<open>
  What the parser raises: \<open>ValueError\<close> from \<open>int\<close> and from unpacking a list that has
  not exactly two fields, \<open>KeyError\<close> from reading a dictionary at a missing key.
\<close>

datatype key = IntKey int | StrKey string

datatype error = ValueError | KeyError key

text \<open>
  \<open>re.findall(':.*>', line)\<close>, of which the parser reads the first match only.  A match
  starts at a colon; \<open>.*\<close> takes the characters up to the next newline and gives back
  as few as needed to end on \<open>>\<close>, so the match ends at the last \<open>>\<close> before that
  newline.  The leftmost colon that has such a \<open>>\<close> gives the first match.
\<close>

fun upto_last_gt :: "string \<Rightarrow> string option" where
  "upto_last_gt [] = None"
| "upto_last_gt (c # cs) =
     (case upto_last_gt cs of
        Some r \<Rightarrow> Some (c # r)
      | None \<Rightarrow> if c = CHR ''>'' then Some [c] else None)"

fun findall_first :: "string \<Rightarrow> string option" where
  "findall_first [] = None"
| "findall_first (c # cs) =
     (if c = CHR '':''
      then (case upto_last_gt (takeWhile (\<lambda>x. x \<noteq> newline) cs) of
              Some r \<Rightarrow> Some (c # r)
            | None \<Rightarrow> findall_first cs)
      else findall_first cs)"

text \<open>
  The source line number of a line: \<open>int(m[1:-1])\<close> for the first match \<open>m\<close>, and
  \<open>-1\<close> when there is no match.
\<close>

definition src_line_no :: "string \<Rightarrow> error + int" where
  "src_line_no line =
     (case findall_first line of
        None \<Rightarrow> Inr (- 1)
      | Some m \<Rightarrow>
          (case py_int (butlast (tl m)) of
             None \<Rightarrow> Inl ValueError
           | Some n \<Rightarrow> Inr n))"

text \<open>
  \<open>re.sub(r'\(.*$', '', line)\<close>: the text from the first parenthesis whose line runs to
  the end of the string (or to a newline that ends the string) is removed.
\<close>

fun sub_paren :: "string \<Rightarrow> string" where
  "sub_paren [] = []"
| "sub_paren (c # cs) =
     (let rest = dropWhile (\<lambda>x. x \<noteq> newline) cs
      in if c = CHR ''('' \<and> (rest = [] \<or> rest = [newline]) then rest
         else c # sub_paren cs)"

text \<open>\<open>re.sub(r'^\{\s*', '', s)\<close>: an opening brace at the start goes, with the white space after it.\<close>

definition sub_open_brace :: "string \<Rightarrow> string" where
  "sub_open_brace s =
     (case s of
        [] \<Rightarrow> []
      | c # cs \<Rightarrow> if c = CHR ''{'' then dropWhile py_isspace cs else s)"

text \<open>\<open>re.sub(r'\}\s*', r'\t', s)\<close>: every closing brace, with the white space after it, becomes one tab.\<close>

function sub_close_brace :: "string \<Rightarrow> string" where
  "sub_close_brace [] = []"
| "sub_close_brace (c # cs) =
     (if c = CHR ''}'' then tab # sub_close_brace (dropWhile py_isspace cs)
      else c # sub_close_brace cs)"
  by pat_completeness auto
termination
  by (relation "measure length") (auto simp: less_Suc_eq_le length_dropWhile_le)

type_synonym call_line = "int \<times> string \<times> int"

text \<open>
  The first half of the loop body of \<open>cflow2nx\<close>: from a line that is not empty to its
  nest level, function name and source line number.
\<close>

definition parse_line :: "string \<Rightarrow> error + call_line" where
  "parse_line line =
     (case src_line_no line of
        Inl e \<Rightarrow> Inl e
      | Inr n \<Rightarrow>
          (case py_split tab (sub_close_brace (sub_open_brace (sub_paren line))) of
             [nest_level, func_name] \<Rightarrow>
               (case py_int nest_level of
                  None \<Rightarrow> Inl ValueError
                | Some l \<Rightarrow> Inr (l, func_name, n))
           | _ \<Rightarrow> Inl ValueError))"

section \<open>The graph\<close>

text \<open>
  A \<open>networkx.DiGraph\<close>: the nodes in the order they were added, each with its dictionary
  of attributes, and the edges.  The graph holds an ordered pair at most once, whatever is
  asked of it: \<open>add_edge\<close> on a pair it has changes nothing.  \<open>add_edge\<close> also adds an end
  point that is not a node yet, with no attributes.  (The list of edges is kept in the
  order of insertion; nothing below depends on the order in which the library lists them.)
\<close>

type_synonym attrs = "(string \<times> int) list"

record digraph =
  nodes :: "(string \<times> attrs) list"
  edges :: "(string \<times> string) list"

definition DiGraph :: digraph where
  "DiGraph = \<lparr>nodes = [], edges = []\<rparr>"

definition has_node :: "digraph \<Rightarrow> string \<Rightarrow> bool" where
  "has_node g n = (map_of (nodes g) n \<noteq> None)"

definition dict_update :: "attrs \<Rightarrow> attrs \<Rightarrow> attrs" where
  "dict_update d kv = fold (\<lambda>(k, v). AList.update k v) kv d"

definition add_node :: "digraph \<Rightarrow> string \<Rightarrow> attrs \<Rightarrow> digraph" where
  "add_node g n kv =
     g\<lparr>nodes := AList.update n
                   (dict_update (case map_of (nodes g) n of None \<Rightarrow> [] | Some d \<Rightarrow> d) kv)
                   (nodes g)\<rparr>"

definition has_edge :: "digraph \<Rightarrow> string \<Rightarrow> string \<Rightarrow> bool" where
  "has_edge g u v = ((u, v) \<in> set (edges g))"

definition add_edge :: "digraph \<Rightarrow> string \<Rightarrow> string \<Rightarrow> digraph" where
  "add_edge g u v =
     (let g1 = (if has_node g u then g else add_node g u []);
          g2 = (if has_node g1 v then g1 else add_node g1 v [])
      in if has_edge g2 u v then g2 else g2\<lparr>edges := edges g2 @ [(u, v)]\<rparr>)"

text \<open>\<open>graph.nodes[node][attr]\<close>, which raises \<open>KeyError\<close> at a missing node or attribute.\<close>

definition node_attr :: "digraph \<Rightarrow> string \<Rightarrow> string \<Rightarrow> error + int" where
  "node_attr g n a =
     (case map_of (nodes g) n of
        None \<Rightarrow> Inl (KeyError (StrKey n))
      | Some d \<Rightarrow>
          (case map_of d a of
             None \<Rightarrow> Inl (KeyError (StrKey a))
           | Some v \<Rightarrow> Inr v))"

section \<open>The call-tree parser\<close>

definition DOT_RESERVED :: "string set" where
  "DOT_RESERVED = {''graph'', ''strict'', ''digraph'', ''subgraph'', ''node'', ''edge''}"

definition rename_if_reserved_by_dot :: "string \<Rightarrow> string" where
  "rename_if_reserved_by_dot word =
     (if lower word \<in> DOT_RESERVED then word @ ''_'' else word)"

text \<open>
  The state of the loop of \<open>cflow2nx\<close>: the graph \<open>g\<close> and the dictionary \<open>stack\<close>, from a
  nest level to the node seen last at that level.  A dictionary is an association list
  here: \<open>AList.update\<close> overwrites a key in place and appends a new one, as Python does.
\<close>

record pstate =
  graph :: digraph
  stack :: "(int \<times> string) list"

text \<open>
  The second half of the loop body, from \<open>rename_if_reserved_by_dot\<close> on, in the order of
  the source: the stack entry is written, the node is added when the graph does not have
  it, and only then the caller is read from the stack.  A failure carries the state that
  the loop had reached when it was raised.  (The calls of the logger are left out.)
\<close>

definition process_call :: "call_line \<Rightarrow> pstate \<Rightarrow> (error \<times> pstate) + pstate" where
  "process_call cl st =
     (case cl of (nest_level, func_name, src_line) \<Rightarrow>
        let cur_node = rename_if_reserved_by_dot func_name;
            stack1 = AList.update nest_level cur_node (stack st);
            g1 = (if \<not> has_node (graph st) cur_node
                  then add_node (graph st) cur_node
                         [(''nest_level'', nest_level), (''src_line'', src_line)]
                  else graph st);
            st1 = \<lparr>graph = g1, stack = stack1\<rparr>
        in if nest_level \<noteq> 0
           then (case map_of stack1 (nest_level - 1) of
                   None \<Rightarrow> Inl (KeyError (IntKey (nest_level - 1)), st1)
                 | Some pred_node \<Rightarrow>
                     if has_edge g1 pred_node cur_node then Inr st1
                     else Inr (st1\<lparr>graph := add_edge g1 pred_node cur_node\<rparr>))
           else Inr st1)"

text \<open>The loop over the lines of the text; an empty line is skipped.\<close>

fun cflow2nx_loop :: "string list \<Rightarrow> pstate \<Rightarrow> (error \<times> pstate) + pstate" where
  "cflow2nx_loop [] st = Inr st"
| "cflow2nx_loop (line # lines) st =
     (if line = [] then cflow2nx_loop lines st
      else (case parse_line line of
              Inl e \<Rightarrow> Inl (e, st)
            | Inr cl \<Rightarrow>
                (case process_call cl st of
                   Inl r \<Rightarrow> Inl r
                 | Inr st' \<Rightarrow> cflow2nx_loop lines st')))"

definition init_state :: pstate where
  "init_state = \<lparr>graph = DiGraph, stack = []\<rparr>"

definition cflow2nx :: "string \<Rightarrow> string \<Rightarrow> (error \<times> pstate) + digraph" where
  "cflow2nx cflow_str c_fname =
     (case cflow2nx_loop
             (py_split newline (filter (\<lambda>c. c \<noteq> carriage_return) cflow_str)) init_state of
        Inl r \<Rightarrow> Inl r
      | Inr st \<Rightarrow> Inr (graph st))"

text \<open>
  The same loop over lines that are parsed already, which is what the loop does with a
  text every line of which parses (lemma \<open>cflow2nx_loop_parsed\<close> below).
\<close>

fun process_calls :: "call_line list \<Rightarrow> pstate \<Rightarrow> (error \<times> pstate) + pstate" where
  "process_calls [] st = Inr st"
| "process_calls (cl # cls) st =
     (case process_call cl st of
        Inl r \<Rightarrow> Inl r
      | Inr st' \<Rightarrow> process_calls cls st')"

section \<open>The cross-graph resolver\<close>

text \<open>
  \<open>node_defined_in_other_src\<close>: the loop over the other graphs, with the flag
  \<open>defined_somewhere\<close> as its accumulator.  It reads the graphs and writes none of them.
\<close>

fun node_defined_loop :: "string \<Rightarrow> digraph list \<Rightarrow> bool \<Rightarrow> error + bool" where
  "node_defined_loop node [] defined_somewhere = Inr defined_somewhere"
| "node_defined_loop node (g # gs) defined_somewhere =
     (if has_node g node
      then (case node_attr g node ''src_line'' of
              Inl e \<Rightarrow> Inl e
            | Inr src_line \<Rightarrow>
                node_defined_loop node gs (if src_line \<noteq> - 1 then True else defined_somewhere))
      else node_defined_loop node gs defined_somewhere)"

definition node_defined_in_other_src :: "string \<Rightarrow> digraph list \<Rightarrow> error + bool" where
  "node_defined_in_other_src node other_graphs = node_defined_loop node other_graphs False"

section \<open>Invariants of the parser\<close>

text \<open>
  Every node of a graph carries both attributes that \<open>cflow2nx\<close> gives a node; and a
  state of the loop is consistent when its graph is so attributed, no node is listed twice
  and every entry of the stack names a node of the graph.
\<close>

definition attributed :: "digraph \<Rightarrow> bool" where
  "attributed g =
     list_all (\<lambda>(n, d). map_of d ''nest_level'' \<noteq> None \<and> map_of d ''src_line'' \<noteq> None)
       (nodes g)"

definition consistent :: "pstate \<Rightarrow> bool" where
  "consistent st =
     (attributed (graph st) \<and> distinct (map fst (nodes (graph st)))
      \<and> list_all (\<lambda>(k, n). has_node (graph st) n) (stack st))"

section \<open>Properties of the formatter\<close>

lemma mod5_index: "nat (i mod 5) < 5" for i :: int
  by (simp add: nat_less_iff)

text \<open>
  Claim C4.  At nest level 0 the shape is \<open>box\<close> and the colour is the first entry of the
  palette.  At every nest level above 0 the colour is entry \<open>(nest_level - 1) mod 5\<close> of
  the palette and the shape is entry \<open>nest_level mod 5\<close> of box, ellipse, octagon, hexagon,
  diamond; both indices are in range.  Colour and shape are a function of the nest level
  alone: the node, its source line and the three flags do not change them.
\<close>

theorem choose_node_format_style:
  "snd (choose_node_format node 0 src_line ds fl mp) = (hd COLORS, ''box'')
   \<and> (0 < nest_level \<longrightarrow>
        snd (choose_node_format node nest_level src_line ds fl mp)
          = (COLORS ! nat ((nest_level - 1) mod 5),
             [''box'', ''ellipse'', ''octagon'', ''hexagon'', ''diamond'']
               ! nat (nest_level mod 5))
        \<and> nat ((nest_level - 1) mod 5) < length COLORS
        \<and> nat (nest_level mod 5) < 5)
   \<and> snd (choose_node_format node nest_level src_line ds fl mp)
       = snd (choose_node_format node' nest_level src_line' ds' fl' mp')"
proof -
  have root: "snd (choose_node_format node 0 src_line ds fl mp) = (hd COLORS, ''box'')"
    by (simp add: choose_node_format_def Let_def COLORS_def)
  have len: "length COLORS = 5"
    by (simp add: COLORS_def)
  have deeper: "snd (choose_node_format node nest_level src_line ds fl mp)
          = (COLORS ! nat ((nest_level - 1) mod 5),
             [''box'', ''ellipse'', ''octagon'', ''hexagon'', ''diamond'']
               ! nat (nest_level mod 5))" if "0 < nest_level"
    using that by (simp add: choose_node_format_def Let_def shapes_def)
  have same: "snd (choose_node_format node nest_level src_line ds fl mp)
       = snd (choose_node_format node' nest_level src_line' ds' fl' mp')"
    by (simp add: choose_node_format_def Let_def)
  show ?thesis
    using root deeper same mod5_index [of "nest_level - 1"] mod5_index [of nest_level]
    by (simp only: len) blast
qed

theorem choose_node_format_style_witness:
  "(0::int) < 7
   \<and> snd (choose_node_format ''main'' 0 10 False False False) = (''#eecc80'', ''box'')
   \<and> snd (choose_node_format ''foo'' 7 (- 1) False False False) = (''#ccee80'', ''octagon'')"
proof -
  have pos: "(0::int) < 7"
    by simp
  have a: "snd (choose_node_format ''main'' 0 10 False False False) = (hd COLORS, ''box'')"
    using choose_node_format_style [of "''main''" 10 False False False 7] by blast
  have b: "snd (choose_node_format ''foo'' 7 (- 1) False False False)
            = (COLORS ! nat ((7 - 1) mod 5),
               [''box'', ''ellipse'', ''octagon'', ''hexagon'', ''diamond''] ! nat (7 mod 5))"
    using choose_node_format_style [of "''foo''" "- 1" False False False 7] pos by blast
  show ?thesis
    using a b by (simp add: COLORS_def)
qed

section \<open>Lemmas on the text normaliser\<close>

text \<open>
  Where the line has one marker only (no colon before it, no \<open>>\<close> after it), the source
  line number is the number that its digits spell; and a line with no colon or no \<open>>\<close>
  gives -1.
\<close>

lemma digit_not_space: "py_isdigit c \<Longrightarrow> \<not> int_isspace c"
  by (auto simp: py_isdigit_def int_isspace_def)

lemma digit_not_sign: "py_isdigit c \<Longrightarrow> c \<noteq> CHR ''-'' \<and> c \<noteq> CHR ''+'' \<and> c \<noteq> CHR ''>'' \<and> c \<noteq> newline"
  by (auto simp: py_isdigit_def newline_def)

lemma strip_digits:
  assumes "ds \<noteq> []" and "\<forall>c \<in> set ds. py_isdigit c"
  shows "strip ds = ds"
proof -
  from assms have h: "\<not> int_isspace (hd ds)" and l: "\<not> int_isspace (last ds)"
    by (simp_all add: digit_not_space)
  from assms(1) h have "dropWhile int_isspace ds = ds"
    by (cases ds) simp_all
  moreover from assms(1) l have "dropWhile int_isspace (rev ds) = rev ds"
    by (cases "rev ds") (simp_all add: last_rev [symmetric] hd_rev)
  ultimately show ?thesis
    by (simp add: strip_def)
qed

lemma int_digits_all_digits:
  "\<forall>c \<in> set ds. py_isdigit c \<Longrightarrow>
     int_digits acc ds = Some (foldl (\<lambda>a c. a * 10 + digit_val c) acc ds)"
  by (induction acc ds rule: int_digits.induct) simp_all

lemma py_int_digits:
  assumes "ds \<noteq> []" and "\<forall>c \<in> set ds. py_isdigit c"
  shows "py_int ds = Some (int (foldl (\<lambda>a c. a * 10 + digit_val c) 0 ds))"
proof -
  from assms obtain c cs where ds: "ds = c # cs" and c: "py_isdigit c"
    and cs: "\<forall>c \<in> set cs. py_isdigit c"
    by (cases ds) auto
  from c have sign: "c \<noteq> CHR ''-''" "c \<noteq> CHR ''+''"
    by (simp_all add: digit_not_sign)
  have "int_unsigned (c # cs) = Some (foldl (\<lambda>a c. a * 10 + digit_val c) 0 (c # cs))"
    using c int_digits_all_digits [OF cs, of "digit_val c"] by (simp add: int_unsigned_def)
  with strip_digits [OF assms] sign show ?thesis
    by (simp add: py_int_def ds)
qed

lemma upto_last_gt_none: "CHR ''>'' \<notin> set s \<Longrightarrow> upto_last_gt s = None"
  by (induction s) auto

lemma upto_last_gt_append:
  "CHR ''>'' \<notin> set post \<Longrightarrow> upto_last_gt (ds @ CHR ''>'' # post) = Some (ds @ ''>'')"
  by (induction ds) (auto simp: upto_last_gt_none)

lemma findall_first_skip:
  "CHR '':'' \<notin> set pre \<Longrightarrow> findall_first (pre @ s) = findall_first s"
  by (induction pre) auto

lemma findall_first_none:
  "CHR '':'' \<notin> set s \<or> CHR ''>'' \<notin> set s \<Longrightarrow> findall_first s = None"
proof (induction s)
  case Nil
  then show ?case by simp
next
  case (Cons c s)
  then have rest: "findall_first s = None"
    by auto
  show ?case
  proof (cases "c = CHR '':''")
    case True
    with Cons.prems have "CHR ''>'' \<notin> set s"
      by auto
    then have "CHR ''>'' \<notin> set (takeWhile (\<lambda>x. x \<noteq> newline) s)"
      by (auto dest: set_takeWhileD)
    with True rest show ?thesis
      by (simp add: upto_last_gt_none)
  next
    case False
    with rest show ?thesis by simp
  qed
qed

lemma src_line_no_marker:
  assumes "CHR '':'' \<notin> set pre" and "CHR ''>'' \<notin> set post"
    and "ds \<noteq> []" and "\<forall>c \<in> set ds. py_isdigit c"
  shows "src_line_no (pre @ CHR '':'' # ds @ CHR ''>'' # post)
           = Inr (int (foldl (\<lambda>a c. a * 10 + digit_val c) 0 ds))"
proof -
  from assms(4) have nl: "\<forall>c \<in> set ds. c \<noteq> newline"
    by (auto simp: digit_not_sign)
  then have "takeWhile (\<lambda>x. x \<noteq> newline) (ds @ CHR ''>'' # post)
               = ds @ CHR ''>'' # takeWhile (\<lambda>x. x \<noteq> newline) post"
    by (simp add: takeWhile_append2 newline_def)
  moreover from assms(2) have "CHR ''>'' \<notin> set (takeWhile (\<lambda>x. x \<noteq> newline) post)"
    by (auto dest: set_takeWhileD)
  ultimately have "upto_last_gt (takeWhile (\<lambda>x. x \<noteq> newline) (ds @ CHR ''>'' # post))
                     = Some (ds @ ''>'')"
    by (simp add: upto_last_gt_append)
  then have "findall_first (pre @ CHR '':'' # ds @ CHR ''>'' # post) = Some (CHR '':'' # ds @ ''>'')"
    by (simp add: findall_first_skip [OF assms(1)])
  with py_int_digits [OF assms(3,4)] show ?thesis
    by (simp add: src_line_no_def butlast_append)
qed

lemma src_line_no_absent:
  "CHR '':'' \<notin> set line \<or> CHR ''>'' \<notin> set line \<Longrightarrow> src_line_no line = Inr (- 1)"
  by (simp add: src_line_no_def findall_first_none)

section \<open>Lemmas on the graph and on the loop\<close>


lemma update_fresh: "k \<notin> fst ` set al \<Longrightarrow> AList.update k v al = al @ [(k, v)]"
  by (induction al) auto

lemma set_update_subset: "set (AList.update k v al) \<subseteq> insert (k, v) (set al)"
  by (induction al) auto

lemma has_node_iff: "has_node g n \<longleftrightarrow> n \<in> fst ` set (nodes g)"
  by (simp add: has_node_def map_of_eq_None_iff)

lemma edges_add_node [simp]: "edges (add_node g n kv) = edges g"
  by (simp add: add_node_def)

lemma node_names_add_node:
  "fst ` set (nodes (add_node g n kv)) = insert n (fst ` set (nodes g))"
  by (simp add: add_node_def dom_update)

lemma has_node_add_node [simp]: "has_node (add_node g n kv) m \<longleftrightarrow> m = n \<or> has_node g m"
  by (auto simp: has_node_iff node_names_add_node)

lemma nodes_add_node_new:
  assumes "\<not> has_node g n"
  shows "nodes (add_node g n kv) = nodes g @ [(n, dict_update [] kv)]"
proof -
  from assms have none: "map_of (nodes g) n = None"
    by (simp add: has_node_def)
  then have "n \<notin> fst ` set (nodes g)"
    by (simp add: map_of_eq_None_iff)
  with none show ?thesis
    by (simp add: add_node_def update_fresh)
qed

lemma has_edge_add_node [simp]: "has_edge (add_node g n kv) u v = has_edge g u v"
  by (simp add: has_edge_def)

lemma edges_add_edge:
  "edges (add_edge g u v) = (if (u, v) \<in> set (edges g) then edges g else edges g @ [(u, v)])"
  by (simp add: add_edge_def Let_def has_edge_def)

lemma nodes_add_edge_present:
  "has_node g u \<Longrightarrow> has_node g v \<Longrightarrow> nodes (add_edge g u v) = nodes g"
  by (simp add: add_edge_def Let_def)

lemma has_node_edges_update [simp]: "has_node (g\<lparr>edges := es\<rparr>) n = has_node g n"
  by (simp add: has_node_def)

lemma has_node_add_edge: "has_node (add_edge g u v) n \<longleftrightarrow> n = u \<or> n = v \<or> has_node g n"
  by (auto simp: add_edge_def Let_def)

lemma edges_if_add_node [simp]: "edges (if c then add_node g n kv else g) = edges g"
  by simp

lemma has_edge_if_add_node [simp]:
  "has_edge (if c then add_node g n kv else g) u v = has_edge g u v"
  by simp

lemma has_node_if_add_node [simp]:
  "has_node (if \<not> has_node g n then add_node g n kv else g) m \<longleftrightarrow> m = n \<or> has_node g m"
  by auto

text \<open>
  The four ways through the second half of the loop body: a root line, a line whose
  caller is missing, a line whose edge the graph has, and a line that adds its edge.
\<close>

lemma process_call_cases [case_names root missing seen new]:
  fixes l :: int and f :: string and s :: int and st :: pstate
  defines "cur \<equiv> rename_if_reserved_by_dot f"
  defines "g1 \<equiv> (if \<not> has_node (graph st) cur
                  then add_node (graph st) cur [(''nest_level'', l), (''src_line'', s)]
                  else graph st)"
  defines "stack1 \<equiv> AList.update l cur (stack st)"
  obtains
    "l = 0" "process_call (l, f, s) st = Inr \<lparr>graph = g1, stack = stack1\<rparr>"
  | "l \<noteq> 0" "map_of (stack st) (l - 1) = None"
      "process_call (l, f, s) st
         = Inl (KeyError (IntKey (l - 1)), \<lparr>graph = g1, stack = stack1\<rparr>)"
  | p where "l \<noteq> 0" "map_of (stack st) (l - 1) = Some p" "has_edge g1 p cur"
      "process_call (l, f, s) st = Inr \<lparr>graph = g1, stack = stack1\<rparr>"
  | p where "l \<noteq> 0" "map_of (stack st) (l - 1) = Some p" "\<not> has_edge g1 p cur"
      "process_call (l, f, s) st = Inr \<lparr>graph = add_edge g1 p cur, stack = stack1\<rparr>"
proof -
  have unfold: "process_call (l, f, s) st =
      (if l \<noteq> 0
       then (case map_of stack1 (l - 1) of
               None \<Rightarrow> Inl (KeyError (IntKey (l - 1)), \<lparr>graph = g1, stack = stack1\<rparr>)
             | Some p \<Rightarrow>
                 if has_edge g1 p cur then Inr \<lparr>graph = g1, stack = stack1\<rparr>
                 else Inr \<lparr>graph = add_edge g1 p cur, stack = stack1\<rparr>)
       else Inr \<lparr>graph = g1, stack = stack1\<rparr>)"
    unfolding process_call_def cur_def g1_def stack1_def
    by (simp add: Let_def split: option.split)
  have look: "map_of stack1 (l - 1) = map_of (stack st) (l - 1)"
    unfolding stack1_def by (simp add: update_conv')
  show thesis
  proof (cases "l = 0")
    case True
    with unfold that(1) show thesis by simp
  next
    case nz: False
    show thesis
    proof (cases "map_of (stack st) (l - 1)")
      case None
      with nz unfold look that(2) show thesis by simp
    next
      case (Some p)
      show thesis
      proof (cases "has_edge g1 p cur")
        case True
        with nz Some unfold look that(3) show thesis by simp
      next
        case False
        with nz Some unfold look that(4) show thesis by simp
      qed
    qed
  qed
qed

lemma process_call_edges:
  "process_call (l, f, s) st = Inr st' \<Longrightarrow>
     l \<noteq> 0 \<and> (\<exists>p. map_of (stack st) (l - 1) = Some p \<and>
        edges (graph st') =
          (if (p, rename_if_reserved_by_dot f) \<in> set (edges (graph st)) then edges (graph st)
           else edges (graph st) @ [(p, rename_if_reserved_by_dot f)]))
     \<or> l = 0 \<and> edges (graph st') = edges (graph st)"
  by - (rule process_call_cases [where l = l and f = f and s = s and st = st], auto simp: edges_add_edge has_edge_def)

lemma process_call_stack:
  "process_call (l, f, s) st = Inr st' \<Longrightarrow>
     stack st' = AList.update l (rename_if_reserved_by_dot f) (stack st)"
  by - (rule process_call_cases [where l = l and f = f and s = s and st = st], auto)

lemma process_call_error:
  "process_call cl st = Inl (e, st') \<Longrightarrow> \<exists>k. e = KeyError (IntKey k)"
proof -
  obtain l f s where cl: "cl = (l, f, s)" by (cases cl)
  assume "process_call cl st = Inl (e, st')"
  then show ?thesis
    unfolding cl by - (rule process_call_cases [where l = l and f = f and s = s and st = st], auto)
qed

lemma process_call_missing:
  assumes "l \<noteq> 0" and "map_of (stack st) (l - 1) = None"
  shows "\<exists>st1. process_call (l, f, s) st = Inl (KeyError (IntKey (l - 1)), st1)
           \<and> has_node (graph st1) (rename_if_reserved_by_dot f)
           \<and> map_of (stack st1) l = Some (rename_if_reserved_by_dot f)
           \<and> edges (graph st1) = edges (graph st)"
  using assms by - (rule process_call_cases [where l = l and f = f and s = s and st = st], auto simp: update_conv')

lemma process_call_present:
  assumes "l \<noteq> 0" and "map_of (stack st) (l - 1) = Some p"
  shows "\<exists>st1. process_call (l, f, s) st = Inr st1
           \<and> has_edge (graph st1) p (rename_if_reserved_by_dot f)
           \<and> edges (graph st1) =
               (if has_edge (graph st) p (rename_if_reserved_by_dot f) then edges (graph st)
                else edges (graph st) @ [(p, rename_if_reserved_by_dot f)])"
  using assms
  by - (rule process_call_cases [where l = l and f = f and s = s and st = st], auto simp: has_edge_def edges_add_edge)

lemma process_call_records:
  assumes "process_call (l, word, s) st = Inr st' \<or> process_call (l, word, s) st = Inl (e, st')"
  shows "has_node (graph st') (rename_if_reserved_by_dot word)
       \<and> map_of (stack st') l = Some (rename_if_reserved_by_dot word)"
  using assms
  by - (rule process_call_cases [where l = l and f = word and s = s and st = st], auto simp: update_conv' has_node_add_edge)

lemma process_call_distinct_edges:
  assumes "process_call cl st = Inr st'" "distinct (edges (graph st))"
  shows "distinct (edges (graph st'))"
proof -
  obtain l f s where cl: "cl = (l, f, s)" by (cases cl)
  from process_call_edges [OF assms(1) [unfolded cl]] assms(2) show ?thesis
    by (auto split: if_splits)
qed

lemma process_calls_distinct_edges:
  "process_calls cls st = Inr st' \<Longrightarrow> distinct (edges (graph st)) \<Longrightarrow> distinct (edges (graph st'))"
proof (induction cls arbitrary: st)
  case Nil
  then show ?case by simp
next
  case (Cons cl cls)
  then show ?case
    by (auto split: sum.splits dest: process_call_distinct_edges)
qed

lemma process_calls_append:
  "process_calls (xs @ ys) st =
     (case process_calls xs st of Inl r \<Rightarrow> Inl r | Inr st1 \<Rightarrow> process_calls ys st1)"
  by (induction xs arbitrary: st) (auto split: sum.splits)

lemma cflow2nx_loop_parsed:
  "map parse_line (filter (\<lambda>l. l \<noteq> []) lines) = map Inr cls \<Longrightarrow>
     cflow2nx_loop lines st = process_calls cls st"
proof (induction lines arbitrary: cls st)
  case Nil
  then show ?case by simp
next
  case (Cons line lines)
  show ?case
  proof (cases "line = []")
    case True
    with Cons show ?thesis by simp
  next
    case False
    with Cons.prems obtain cl cls' where cls: "cls = cl # cls'" "parse_line line = Inr cl"
      "map parse_line (filter (\<lambda>l. l \<noteq> []) lines) = map Inr cls'"
      by (cases cls) auto
    with False Cons.IH [OF cls(3)] show ?thesis
      by (simp split: sum.splits)
  qed
qed

lemma cflow2nx_loop_calls:
  "cflow2nx_loop lines st = Inr st' \<Longrightarrow>
    \<exists>cls. map parse_line (filter (\<lambda>l. l \<noteq> []) lines) = map Inr cls \<and> process_calls cls st = Inr st'"
proof (induction lines arbitrary: st)
  case Nil
  then show ?case by simp
next
  case (Cons line lines)
  show ?case
  proof (cases "line = []")
    case True
    with Cons show ?thesis by simp
  next
    case False
    with Cons.prems obtain cl st1 where s: "parse_line line = Inr cl" "process_call cl st = Inr st1"
      "cflow2nx_loop lines st1 = Inr st'"
      by (auto split: sum.splits)
    from Cons.IH [OF s(3)] obtain cls where
      "map parse_line (filter (\<lambda>l. l \<noteq> []) lines) = map Inr cls" "process_calls cls st1 = Inr st'"
      by blast
    with False s show ?thesis
      by (intro exI [of _ "cl # cls"]) simp
  qed
qed


lemma consistent_init: "consistent init_state"
  by (simp add: consistent_def init_state_def DiGraph_def attributed_def)

lemma stack_value_is_node:
  "consistent st \<Longrightarrow> map_of (stack st) k = Some p \<Longrightarrow> has_node (graph st) p"
  by (auto simp: consistent_def list_all_iff dest: map_of_SomeD)

lemma process_call_nodes:
  assumes "consistent st" and "process_call (l, f, s) st = Inr st'"
  shows "nodes (graph st') =
           (if has_node (graph st) (rename_if_reserved_by_dot f) then nodes (graph st)
            else nodes (graph st)
                   @ [(rename_if_reserved_by_dot f, [(''nest_level'', l), (''src_line'', s)])])"
proof -
  let ?cur = "rename_if_reserved_by_dot f"
  let ?g1 = "if \<not> has_node (graph st) ?cur
             then add_node (graph st) ?cur [(''nest_level'', l), (''src_line'', s)]
             else graph st"
  have g1: "nodes ?g1 = (if has_node (graph st) ?cur then nodes (graph st)
            else nodes (graph st) @ [(?cur, [(''nest_level'', l), (''src_line'', s)])])"
    by (simp add: nodes_add_node_new dict_update_def)
  have cur: "has_node ?g1 ?cur"
    by simp
  show ?thesis
  proof (cases "l = 0")
    case True
    with assms(2) have "graph st' = ?g1"
      by (auto simp: process_call_def Let_def)
    with g1 show ?thesis by simp
  next
    case False
    with assms(2) obtain p where p: "map_of (stack st) (l - 1) = Some p"
      and st': "graph st' = ?g1 \<or> graph st' = add_edge ?g1 p ?cur"
      by (auto simp: process_call_def Let_def update_conv' split: option.splits if_splits)
    from stack_value_is_node [OF assms(1) p] have "has_node ?g1 p"
      by simp
    then have "nodes (add_edge ?g1 p ?cur) = nodes ?g1"
      using cur by (rule nodes_add_edge_present)
    with st' g1 show ?thesis by auto
  qed
qed

lemma process_call_consistent:
  assumes "consistent st" and "process_call (l, f, s) st = Inr st'"
  shows "consistent st'"
proof -
  let ?cur = "rename_if_reserved_by_dot f"
  note n = process_call_nodes [OF assms]
  note k = process_call_stack [OF assms(2)]
  have names: "fst ` set (nodes (graph st')) = insert ?cur (fst ` set (nodes (graph st)))"
    using n by (auto simp: has_node_iff)
  have a: "attributed (graph st')"
    using assms(1) n by (auto simp: consistent_def attributed_def)
  have d: "distinct (map fst (nodes (graph st')))"
    using assms(1) n by (auto simp: consistent_def has_node_iff)
  have "set (stack st') \<subseteq> insert (l, ?cur) (set (stack st))"
    unfolding k by (rule set_update_subset)
  then have "list_all (\<lambda>(k, n). has_node (graph st') n) (stack st')"
    using assms(1) names by (auto simp: consistent_def list_all_iff has_node_iff)
  with a d show ?thesis
    by (simp add: consistent_def)
qed

lemma process_calls_consistent:
  "consistent st \<Longrightarrow> process_calls cls st = Inr st' \<Longrightarrow> consistent st'"
proof (induction cls arbitrary: st)
  case Nil
  then show ?case by simp
next
  case (Cons cl cls)
  obtain l f s where cl: "cl = (l, f, s)" by (cases cl)
  from Cons.prems obtain st1 where s: "process_call (l, f, s) st = Inr st1"
    "process_calls cls st1 = Inr st'"
    by (auto simp: cl split: sum.splits)
  from process_call_consistent [OF Cons.prems(1) s(1)] Cons.IH s(2) show ?case
    by blast
qed

lemma process_calls_node_names:
  "consistent st \<Longrightarrow> process_calls cls st = Inr st' \<Longrightarrow>
     fst ` set (nodes (graph st')) =
       fst ` set (nodes (graph st)) \<union> rename_if_reserved_by_dot ` (\<lambda>cl. fst (snd cl)) ` set cls"
proof (induction cls arbitrary: st)
  case Nil
  then show ?case by simp
next
  case (Cons cl cls)
  obtain l f s where cl: "cl = (l, f, s)" by (cases cl)
  from Cons.prems obtain st1 where s: "process_call (l, f, s) st = Inr st1"
    "process_calls cls st1 = Inr st'"
    by (auto simp: cl split: sum.splits)
  have "fst ` set (nodes (graph st1)) =
          insert (rename_if_reserved_by_dot f) (fst ` set (nodes (graph st)))"
    using process_call_nodes [OF Cons.prems(1) s(1)] by (auto simp: has_node_iff)
  with Cons.IH [OF process_call_consistent [OF Cons.prems(1) s(1)] s(2)] show ?case
    by (auto simp: cl)
qed


lemma process_calls_error:
  "process_calls cls st = Inl (e, st') \<Longrightarrow> \<exists>k. e = KeyError (IntKey k)"
  by (induction cls arbitrary: st) (auto split: sum.splits dest: process_call_error)

lemma process_calls_stack_other:
  "process_calls cls st = Inr st' \<Longrightarrow> k \<notin> fst ` set cls \<Longrightarrow>
     map_of (stack st') k = map_of (stack st) k"
proof (induction cls arbitrary: st)
  case Nil
  then show ?case by simp
next
  case (Cons cl cls)
  obtain l f s where cl: "cl = (l, f, s)" by (cases cl)
  from Cons.prems obtain st1 where s: "process_call (l, f, s) st = Inr st1"
    "process_calls cls st1 = Inr st'"
    by (auto simp: cl split: sum.splits)
  from Cons.prems(2) have "k \<noteq> l" "k \<notin> fst ` set cls"
    by (auto simp: cl)
  with Cons.IH [OF s(2)] process_call_stack [OF s(1)] show ?case
    by (simp add: update_conv')
qed

lemma process_calls_stack_last:
  assumes "process_calls (pre @ (k, m, s) # mid) st = Inr st'" and "k \<notin> fst ` set mid"
  shows "map_of (stack st') k = Some (rename_if_reserved_by_dot m)"
proof -
  from assms(1) obtain st1 st2 where s: "process_calls pre st = Inr st1"
    "process_call (k, m, s) st1 = Inr st2" "process_calls mid st2 = Inr st'"
    by (auto simp: process_calls_append split: sum.splits)
  from process_call_stack [OF s(2)] have "map_of (stack st2) k = Some (rename_if_reserved_by_dot m)"
    by (simp add: update_conv')
  with process_calls_stack_other [OF s(3) assms(2)] show ?thesis
    by simp
qed

lemma lower_underscore: "lower_char (CHR ''_'') = CHR ''_''"
  by (simp add: lower_char_def)

lemma reserved_last: "r \<in> DOT_RESERVED \<Longrightarrow> r \<noteq> [] \<and> last r \<noteq> CHR ''_''"
  by (auto simp: DOT_RESERVED_def)

lemma lower_suffixed_not_reserved: "lower (word @ ''_'') \<notin> DOT_RESERVED"
proof
  assume "lower (word @ ''_'') \<in> DOT_RESERVED"
  from reserved_last [OF this] show False
    by (simp add: lower_def lower_underscore)
qed

lemma parsed_node_names:
  assumes "process_calls cls init_state = Inr st"
  shows "distinct (map fst (nodes (graph st)))"
    and "set (map fst (nodes (graph st))) = rename_if_reserved_by_dot ` (\<lambda>cl. fst (snd cl)) ` set cls"
proof -
  from process_calls_consistent [OF consistent_init assms]
  show "distinct (map fst (nodes (graph st)))"
    by (simp add: consistent_def)
  from process_calls_node_names [OF consistent_init assms]
  show "set (map fst (nodes (graph st))) = rename_if_reserved_by_dot ` (\<lambda>cl. fst (snd cl)) ` set cls"
    by (simp add: init_state_def DiGraph_def)
qed

lemma parsed_node_count:
  assumes "process_calls cls init_state = Inr st"
    and "inj_on rename_if_reserved_by_dot ((\<lambda>cl. fst (snd cl)) ` set cls)"
  shows "length (nodes (graph st)) = card ((\<lambda>cl. fst (snd cl)) ` set cls)"
proof -
  from parsed_node_names [OF assms(1)]
  have "length (nodes (graph st)) = card (rename_if_reserved_by_dot ` (\<lambda>cl. fst (snd cl)) ` set cls)"
    by (metis distinct_card length_map)
  with assms(2) show ?thesis
    by (simp add: card_image)
qed

lemma node_defined_loop_result:
  assumes "\<forall>g \<in> set gs. attributed g"
  shows "node_defined_loop node gs d
           = Inr (d \<or> (\<exists>g \<in> set gs. \<exists>a s. map_of (nodes g) node = Some a
                                     \<and> map_of a ''src_line'' = Some s \<and> s \<noteq> - 1))"
  using assms
proof (induction gs arbitrary: d)
  case Nil
  then show ?case by simp
next
  case (Cons g gs)
  from Cons.prems have ih: "\<And>d. node_defined_loop node gs d
           = Inr (d \<or> (\<exists>g \<in> set gs. \<exists>a s. map_of (nodes g) node = Some a
                                     \<and> map_of a ''src_line'' = Some s \<and> s \<noteq> - 1))"
    using Cons.IH by simp
  show ?case
  proof (cases "map_of (nodes g) node")
    case None
    then show ?thesis
      by (simp add: has_node_def ih)
  next
    case (Some a)
    then have "(node, a) \<in> set (nodes g)"
      by (rule map_of_SomeD)
    with Cons.prems obtain s where s: "map_of a ''src_line'' = Some s"
      by (auto simp: attributed_def list_all_iff)
    with Some show ?thesis
      by (auto simp: has_node_def node_attr_def ih)
  qed
qed

lemma cflow2nx_attributed:
  assumes "cflow2nx cflow_str c_fname = Inr g"
  shows "attributed g"
proof -
  from assms obtain st where
    loop: "cflow2nx_loop (py_split newline (filter (\<lambda>c. c \<noteq> carriage_return) cflow_str))
             init_state = Inr st"
    and g: "g = graph st"
    by (auto simp: cflow2nx_def split: sum.splits)
  from cflow2nx_loop_calls [OF loop] obtain cls where "process_calls cls init_state = Inr st"
    by blast
  from process_calls_consistent [OF consistent_init this] g show ?thesis
    by (simp add: consistent_def)
qed

section \<open>Properties of the call-tree parser\<close>

text \<open>
  Claim C1.  The four lines with nest level, name and source line (0, main, 10),
  (1, foo, 20), (1, bar, -1), (2, foo, 20) give a graph with exactly the nodes main, foo
  and bar, each with the nest level and source line of its first occurrence, and exactly
  the edges from main to foo, from main to bar and from bar to foo.  The four lines of
  text that the analyser prints for this tree parse to these triples, and \<open>cflow2nx\<close>
  returns that graph for the text.
\<close>

theorem cflow2nx_example_graph:
  "process_calls [(0, ''main'', 10), (1, ''foo'', 20), (1, ''bar'', - 1), (2, ''foo'', 20)] init_state
     = Inr \<lparr>graph = \<lparr>nodes = [(''main'', [(''nest_level'', 0), (''src_line'', 10)]),
                              (''foo'', [(''nest_level'', 1), (''src_line'', 20)]),
                              (''bar'', [(''nest_level'', 1), (''src_line'', - 1)])],
                     edges = [(''main'', ''foo''), (''main'', ''bar''), (''bar'', ''foo'')]\<rparr>,
            stack = [(0, ''main''), (1, ''bar''), (2, ''foo'')]\<rparr>
   \<and> map parse_line
         [''{   0} main() <int main (void) at a.c:10>:'',
          ''{   1}     foo() <int foo (void) at a.c:20>:'',
          ''{   1}     bar()'',
          ''{   2}         foo() <int foo (void) at a.c:20>:'']
       = [Inr (0, ''main'', 10), Inr (1, ''foo'', 20), Inr (1, ''bar'', - 1), Inr (2, ''foo'', 20)]
   \<and> cflow2nx
         (''{   0} main() <int main (void) at a.c:10>:'' @ [newline]
          @ ''{   1}     foo() <int foo (void) at a.c:20>:'' @ [newline]
          @ ''{   1}     bar()'' @ [newline]
          @ ''{   2}         foo() <int foo (void) at a.c:20>:'' @ [newline]) ''a.c''
       = Inr \<lparr>nodes = [(''main'', [(''nest_level'', 0), (''src_line'', 10)]),
                       (''foo'', [(''nest_level'', 1), (''src_line'', 20)]),
                       (''bar'', [(''nest_level'', 1), (''src_line'', - 1)])],
              edges = [(''main'', ''foo''), (''main'', ''bar''), (''bar'', ''foo'')]\<rparr>"
  by code_simp

text \<open>
  Claim C2, as the specification has it, fails in its last part: the node of the
  offending line is in the graph when the error is raised.  The input jumps from nest
  level 0 to nest level 2; the failure is a \<open>KeyError\<close> at key 1, and the state that the
  loop had reached holds the node foo, which the graph did not have before.
\<close>

theorem missing_ancestor_node_added:
  "process_calls [(0, ''main'', 10), (2, ''foo'', 20)] init_state
     = Inl (KeyError (IntKey 1),
            \<lparr>graph = \<lparr>nodes = [(''main'', [(''nest_level'', 0), (''src_line'', 10)]),
                               (''foo'', [(''nest_level'', 2), (''src_line'', 20)])],
                      edges = []\<rparr>,
             stack = [(0, ''main''), (2, ''foo'')]\<rparr>)
   \<and> has_node \<lparr>nodes = [(''main'', [(''nest_level'', 0), (''src_line'', 10)]),
                        (''foo'', [(''nest_level'', 2), (''src_line'', 20)])],
               edges = []\<rparr> ''foo''
   \<and> \<not> has_node (graph init_state) ''foo''"
  by code_simp

text \<open>
  Claim C2, amended.  When a line at a nest level \<open>d > 0\<close> follows lines none of which
  is at nest level \<open>d - 1\<close>, the parse fails with a \<open>KeyError\<close>, whatever comes after that
  line.  When the lines before it parse, the error is the missing key \<open>d - 1\<close>; at the
  moment it is raised the line's entry of the stack and its node are recorded already,
  and no edge has been added for the line.
\<close>

theorem missing_ancestor_raises:
  assumes "0 < d" and "\<forall>cl \<in> set pre. fst cl \<noteq> d - 1"
  shows "(\<exists>k st. process_calls (pre @ (d, f, s) # post) init_state = Inl (KeyError (IntKey k), st))
       \<and> (\<forall>st0. process_calls pre init_state = Inr st0 \<longrightarrow>
            (\<exists>st1. process_calls (pre @ (d, f, s) # post) init_state
                      = Inl (KeyError (IntKey (d - 1)), st1)
                  \<and> has_node (graph st1) (rename_if_reserved_by_dot f)
                  \<and> map_of (stack st1) d = Some (rename_if_reserved_by_dot f)
                  \<and> edges (graph st1) = edges (graph st0)))"
proof -
  have second: "\<exists>st1. process_calls (pre @ (d, f, s) # post) init_state
                      = Inl (KeyError (IntKey (d - 1)), st1)
                  \<and> has_node (graph st1) (rename_if_reserved_by_dot f)
                  \<and> map_of (stack st1) d = Some (rename_if_reserved_by_dot f)
                  \<and> edges (graph st1) = edges (graph st0)"
    if run: "process_calls pre init_state = Inr st0" for st0
  proof -
    from assms(2) have "d - 1 \<notin> fst ` set pre"
      by auto
    from process_calls_stack_other [OF run this] have "map_of (stack st0) (d - 1) = None"
      by (simp add: init_state_def)
    with assms(1) process_call_missing [of d st0 f s] obtain st1 where
      "process_call (d, f, s) st0 = Inl (KeyError (IntKey (d - 1)), st1)"
      "has_node (graph st1) (rename_if_reserved_by_dot f)"
      "map_of (stack st1) d = Some (rename_if_reserved_by_dot f)"
      "edges (graph st1) = edges (graph st0)"
      by auto
    with run show ?thesis
      by (simp add: process_calls_append)
  qed
  have first: "\<exists>k st. process_calls (pre @ (d, f, s) # post) init_state = Inl (KeyError (IntKey k), st)"
  proof (cases "process_calls pre init_state")
    case (Inl r)
    obtain e st where r: "r = (e, st)" by (cases r)
    from process_calls_error [OF Inl [unfolded r]] obtain k where "e = KeyError (IntKey k)" ..
    with Inl r show ?thesis
      by (simp add: process_calls_append)
  next
    case (Inr st0)
    from second [OF this] show ?thesis by blast
  qed
  from first second show ?thesis by blast
qed

theorem missing_ancestor_raises_witness:
  "\<exists>st1. process_calls [(0, ''main'', 10), (2, ''foo'', 20)] init_state
            = Inl (KeyError (IntKey 1), st1)
         \<and> has_node (graph st1) ''foo''
         \<and> map_of (stack st1) 2 = Some ''foo''
         \<and> edges (graph st1) = []"
proof -
  have pos: "(0::int) < 2"
    by simp
  have pre: "\<forall>cl \<in> set [(0::int, ''main'', 10::int)]. fst cl \<noteq> 2 - 1"
    by simp
  have run: "process_calls [(0, ''main'', 10)] init_state
               = Inr \<lparr>graph = \<lparr>nodes = [(''main'', [(''nest_level'', 0), (''src_line'', 10)])],
                               edges = []\<rparr>,
                      stack = [(0, ''main'')]\<rparr>"
    by code_simp
  have foo: "rename_if_reserved_by_dot ''foo'' = ''foo''"
    by code_simp
  from missing_ancestor_raises [OF pos pre, of "''foo''" 20 "[]"] run
  show ?thesis
    by (simp add: foo)
qed

text \<open>
  Claim C3.  A graph that the parser returns, from parsed lines or from a text, lists no
  ordered pair of caller and callee twice.  When the loop meets a line whose edge from
  its caller is in the graph already, the step succeeds and leaves the edges as they
  were.
\<close>

theorem no_parallel_edges:
  "(process_calls cls init_state = Inr st \<longrightarrow> distinct (edges (graph st)))
   \<and> (cflow2nx cflow_str c_fname = Inr g \<longrightarrow> distinct (edges g))
   \<and> (l \<noteq> 0 \<and> map_of (stack st0) (l - 1) = Some p
        \<and> has_edge (graph st0) p (rename_if_reserved_by_dot f) \<longrightarrow>
      (\<exists>st1. process_call (l, f, s) st0 = Inr st1 \<and> edges (graph st1) = edges (graph st0)))"
proof -
  have init: "distinct (edges (graph init_state))"
    by (simp add: init_state_def DiGraph_def)
  have calls: "distinct (edges (graph st))" if "process_calls cls init_state = Inr st"
    using process_calls_distinct_edges [OF that init] .
  have from_text: "distinct (edges g)" if run: "cflow2nx cflow_str c_fname = Inr g"
  proof -
    from run obtain st' where
      loop: "cflow2nx_loop (py_split newline (filter (\<lambda>c. c \<noteq> carriage_return) cflow_str))
               init_state = Inr st'"
      and g: "g = graph st'"
      by (auto simp: cflow2nx_def split: sum.splits)
    from cflow2nx_loop_calls [OF loop] obtain cls' where
      "process_calls cls' init_state = Inr st'"
      by blast
    from process_calls_distinct_edges [OF this init] g show ?thesis
      by simp
  qed
  have skip: "\<exists>st1. process_call (l, f, s) st0 = Inr st1 \<and> edges (graph st1) = edges (graph st0)"
    if "l \<noteq> 0" "map_of (stack st0) (l - 1) = Some p"
      "has_edge (graph st0) p (rename_if_reserved_by_dot f)"
    using process_call_present [OF that(1,2), of f s] that(3) by auto
  from calls from_text skip show ?thesis
    by blast
qed

theorem no_parallel_edges_witness:
  "process_calls [(0, ''main'', 10), (1, ''foo'', 20), (1, ''foo'', 20)] init_state
     = Inr \<lparr>graph = \<lparr>nodes = [(''main'', [(''nest_level'', 0), (''src_line'', 10)]),
                              (''foo'', [(''nest_level'', 1), (''src_line'', 20)])],
                     edges = [(''main'', ''foo'')]\<rparr>,
            stack = [(0, ''main''), (1, ''foo'')]\<rparr>
   \<and> distinct [(''main'', ''foo'')]
   \<and> (\<exists>st1. process_call (1, ''foo'', 20)
               \<lparr>graph = \<lparr>nodes = [(''main'', [(''nest_level'', 0), (''src_line'', 10)]),
                                  (''foo'', [(''nest_level'', 1), (''src_line'', 20)])],
                         edges = [(''main'', ''foo'')]\<rparr>,
                stack = [(0, ''main''), (1, ''foo'')]\<rparr> = Inr st1
          \<and> edges (graph st1) = [(''main'', ''foo'')])"
proof -
  let ?st = "\<lparr>graph = \<lparr>nodes = [(''main'', [(''nest_level'', 0), (''src_line'', 10)]),
                              (''foo'', [(''nest_level'', 1), (''src_line'', 20)])],
                     edges = [(''main'', ''foo'')]\<rparr>,
            stack = [(0, ''main''), (1, ''foo'')]\<rparr>"
  have run: "process_calls [(0, ''main'', 10), (1, ''foo'', 20), (1, ''foo'', 20)] init_state = Inr ?st"
    by code_simp
  have foo: "rename_if_reserved_by_dot ''foo'' = ''foo''"
    by code_simp
  have pre: "(1::int) \<noteq> 0 \<and> map_of (stack ?st) (1 - 1) = Some ''main''
        \<and> has_edge (graph ?st) ''main'' (rename_if_reserved_by_dot ''foo'')"
    by (simp add: foo has_edge_def)
  from no_parallel_edges [of "[(0, ''main'', 10), (1, ''foo'', 20), (1, ''foo'', 20)]" ?st _ _ _ 1 ?st "''main''" "''foo''" 20]
    run pre
  have "distinct (edges (graph ?st))"
    and "\<exists>st1. process_call (1, ''foo'', 20) ?st = Inr st1 \<and> edges (graph st1) = edges (graph ?st)"
    by blast+
  with run show ?thesis
    by simp
qed

text \<open>
  Claim C9.  The stack is never cleared: a step keeps every entry it finds.  The caller
  of a line at a nest level \<open>d\<close> other than 0 is the node of the last earlier line at
  nest level \<open>d - 1\<close>, however many lines at other levels lie between the two;
  the step succeeds and the edge from that node is in the graph afterwards.  The witness
  is a tree whose depth returns to 0 before a line at nest level 2: its caller is the
  entry that the earlier subtree left at nest level 1.
\<close>

theorem stale_caller:
  assumes "d \<noteq> 0" and "process_calls (pre @ (d - 1, m, s) # mid) st = Inr st1"
    and "\<forall>cl \<in> set mid. fst cl \<noteq> d - 1"
  shows "\<exists>st2. process_call (d, f, s') st1 = Inr st2
            \<and> has_edge (graph st2) (rename_if_reserved_by_dot m) (rename_if_reserved_by_dot f)
            \<and> (\<forall>k v. map_of (stack st1) k = Some v \<longrightarrow> map_of (stack st2) k \<noteq> None)"
proof -
  from assms(3) have "d - 1 \<notin> fst ` set mid"
    by auto
  from process_calls_stack_last [OF assms(2) this]
  have p: "map_of (stack st1) (d - 1) = Some (rename_if_reserved_by_dot m)" .
  from process_call_present [OF assms(1) p, of f s'] obtain st2 where
    st2: "process_call (d, f, s') st1 = Inr st2"
    "has_edge (graph st2) (rename_if_reserved_by_dot m) (rename_if_reserved_by_dot f)"
    by blast
  from process_call_stack [OF st2(1)]
  have "\<forall>k v. map_of (stack st1) k = Some v \<longrightarrow> map_of (stack st2) k \<noteq> None"
    by (simp add: update_conv')
  with st2 show ?thesis by blast
qed

theorem stale_caller_witness:
  "process_calls [(0, ''a'', 1), (1, ''b'', 2), (2, ''c'', 3), (0, ''d'', 4)] init_state
     = Inr \<lparr>graph = \<lparr>nodes = [(''a'', [(''nest_level'', 0), (''src_line'', 1)]),
                              (''b'', [(''nest_level'', 1), (''src_line'', 2)]),
                              (''c'', [(''nest_level'', 2), (''src_line'', 3)]),
                              (''d'', [(''nest_level'', 0), (''src_line'', 4)])],
                     edges = [(''a'', ''b''), (''b'', ''c'')]\<rparr>,
            stack = [(0, ''d''), (1, ''b''), (2, ''c'')]\<rparr>
   \<and> (\<exists>st2. process_call (2, ''e'', 5)
               \<lparr>graph = \<lparr>nodes = [(''a'', [(''nest_level'', 0), (''src_line'', 1)]),
                              (''b'', [(''nest_level'', 1), (''src_line'', 2)]),
                              (''c'', [(''nest_level'', 2), (''src_line'', 3)]),
                              (''d'', [(''nest_level'', 0), (''src_line'', 4)])],
                         edges = [(''a'', ''b''), (''b'', ''c'')]\<rparr>,
                stack = [(0, ''d''), (1, ''b''), (2, ''c'')]\<rparr> = Inr st2
          \<and> has_edge (graph st2) ''b'' ''e'')"
proof -
  let ?st = "\<lparr>graph = \<lparr>nodes = [(''a'', [(''nest_level'', 0), (''src_line'', 1)]),
                              (''b'', [(''nest_level'', 1), (''src_line'', 2)]),
                              (''c'', [(''nest_level'', 2), (''src_line'', 3)]),
                              (''d'', [(''nest_level'', 0), (''src_line'', 4)])],
                     edges = [(''a'', ''b''), (''b'', ''c'')]\<rparr>,
            stack = [(0, ''d''), (1, ''b''), (2, ''c'')]\<rparr>"
  have run: "process_calls [(0, ''a'', 1), (1, ''b'', 2), (2, ''c'', 3), (0, ''d'', 4)] init_state
               = Inr ?st"
    by code_simp
  then have run': "process_calls ([(0, ''a'', 1)] @ (2 - 1, ''b'', 2) # [(2, ''c'', 3), (0, ''d'', 4)])
                     init_state = Inr ?st"
    by simp
  have nz: "(2::int) \<noteq> 0"
    by simp
  have mid: "\<forall>cl \<in> set [(2::int, ''c'', 3::int), (0, ''d'', 4)]. fst cl \<noteq> 2 - 1"
    by simp
  have b: "rename_if_reserved_by_dot ''b'' = ''b''"
    by code_simp
  have e: "rename_if_reserved_by_dot ''e'' = ''e''"
    by code_simp
  from stale_caller [OF nz run' mid, of "''e''" 5]
  have "\<exists>st2. process_call (2, ''e'', 5) ?st = Inr st2 \<and> has_edge (graph st2) ''b'' ''e''"
    by (auto simp: b e)
  with run show ?thesis
    by simp
qed

text \<open>
  Claim C6 fails on the code: the suffix that \<open>rename_if_reserved_by_dot\<close> appends does
  not disambiguate.  A function named graph calls a function named graph_; both get the
  identifier graph_, so two distinct function names give one node (with a self-loop).
  Lemma \<open>parsed_node_count\<close> above is what the code does guarantee: the count is right
  whenever the renaming is injective on the names of the input.
\<close>

theorem reserved_suffix_collision:
  "process_calls [(0, ''graph'', 10), (1, ''graph_'', 20)] init_state
     = Inr \<lparr>graph = \<lparr>nodes = [(''graph_'', [(''nest_level'', 0), (''src_line'', 10)])],
                     edges = [(''graph_'', ''graph_'')]\<rparr>,
            stack = [(0, ''graph_''), (1, ''graph_'')]\<rparr>
   \<and> cflow2nx (''{   0} graph() <void graph (void) at a.c:10>:'' @ [newline]
              @ ''{   1}     graph_() <void graph_ (void) at a.c:20>'' @ [newline]) ''a.c''
       = Inr \<lparr>nodes = [(''graph_'', [(''nest_level'', 0), (''src_line'', 10)])],
              edges = [(''graph_'', ''graph_'')]\<rparr>
   \<and> card (set [''graph'', ''graph_'']) = 2"
  by code_simp

text \<open>
  Claim C8.  A word whose lower-case form is one of graph, strict, digraph, subgraph, node,
  edge is renamed to the word followed by an underscore; every other word is left as it
  is.  In both cases the lower-case form of the result is none of the six reserved words.
  The result is the identifier that the loop records: after the step for a line with
  that function name, whether the step succeeds or raises, the graph has it as a node and
  the stack holds it at the line's nest level.
\<close>

theorem rename_if_reserved_by_dot_spec:
  "(lower word \<in> {''graph'', ''strict'', ''digraph'', ''subgraph'', ''node'', ''edge''}
      \<longrightarrow> rename_if_reserved_by_dot word = word @ ''_'')
   \<and> (lower word \<notin> {''graph'', ''strict'', ''digraph'', ''subgraph'', ''node'', ''edge''}
      \<longrightarrow> rename_if_reserved_by_dot word = word)
   \<and> lower (rename_if_reserved_by_dot word)
        \<notin> {''graph'', ''strict'', ''digraph'', ''subgraph'', ''node'', ''edge''}
   \<and> (process_call (l, word, s) st = Inr st' \<or> process_call (l, word, s) st = Inl (e, st')
      \<longrightarrow> has_node (graph st') (rename_if_reserved_by_dot word)
          \<and> map_of (stack st') l = Some (rename_if_reserved_by_dot word))"
proof -
  have set_eq: "{''graph'', ''strict'', ''digraph'', ''subgraph'', ''node'', ''edge''} = DOT_RESERVED"
    by (simp add: DOT_RESERVED_def)
  have a: "lower word \<in> DOT_RESERVED \<longrightarrow> rename_if_reserved_by_dot word = word @ ''_''"
    by (simp add: rename_if_reserved_by_dot_def)
  have b: "lower word \<notin> DOT_RESERVED \<longrightarrow> rename_if_reserved_by_dot word = word"
    by (simp add: rename_if_reserved_by_dot_def)
  have c: "lower (rename_if_reserved_by_dot word) \<notin> DOT_RESERVED"
    using lower_suffixed_not_reserved [of word] by (simp add: rename_if_reserved_by_dot_def)
  show ?thesis
    unfolding set_eq using a b c process_call_records [of l word s st st' e] by blast
qed

theorem rename_if_reserved_by_dot_spec_witness:
  "rename_if_reserved_by_dot ''Graph'' = ''Graph_''
   \<and> rename_if_reserved_by_dot ''main'' = ''main''
   \<and> has_node \<lparr>nodes = [(''Graph_'', [(''nest_level'', 0), (''src_line'', 7)])], edges = []\<rparr> ''Graph_''"
proof -
  let ?st = "\<lparr>graph = \<lparr>nodes = [(''Graph_'', [(''nest_level'', 0), (''src_line'', 7)])],
                         edges = []\<rparr>,
                stack = [(0, ''Graph_'')]\<rparr>"
  have up: "lower ''Graph'' \<in> {''graph'', ''strict'', ''digraph'', ''subgraph'', ''node'', ''edge''}"
    by code_simp
  have plain: "lower ''main'' \<notin> {''graph'', ''strict'', ''digraph'', ''subgraph'', ''node'', ''edge''}"
    by code_simp
  have run: "process_call (0, ''Graph'', 7) init_state = Inr ?st"
    by code_simp
  note inst = rename_if_reserved_by_dot_spec [of "''Graph''" 0 7 init_state ?st ValueError]
  from inst have "lower ''Graph'' \<in> {''graph'', ''strict'', ''digraph'', ''subgraph'', ''node'', ''edge''}
      \<longrightarrow> rename_if_reserved_by_dot ''Graph'' = ''Graph'' @ ''_''"
    by (rule conjunct1)
  from this up have "rename_if_reserved_by_dot ''Graph'' = ''Graph'' @ ''_''"
    by (rule mp)
  then have g: "rename_if_reserved_by_dot ''Graph'' = ''Graph_''"
    by simp
  note rec = inst [THEN conjunct2, THEN conjunct2, THEN conjunct2, THEN mp, OF disjI1, OF run]
  from rec have "has_node (graph ?st) (rename_if_reserved_by_dot ''Graph'')"
    by (rule conjunct1)
  then have n: "has_node \<lparr>nodes = [(''Graph_'', [(''nest_level'', 0), (''src_line'', 7)])], edges = []\<rparr>
              ''Graph_''"
    by (simp only: g pstate.simps)
  note m = rename_if_reserved_by_dot_spec [of "''main''" 0 7 init_state ?st ValueError,
      THEN conjunct2, THEN conjunct1, THEN mp, OF plain]
  from g n m show ?thesis by (intro conjI)
qed

section \<open>Properties of the text normaliser\<close>

text \<open>
  Claim C5 fails on the code: the pattern is \<open>:.*>\<close>, not a colon, digits and \<open>>\<close>.
  The line below holds the marker \<open>:20>\<close>, and a colon earlier in the file name.  The
  first match starts at that earlier colon, \<open>int\<close> is given the text \<open>/a.c:20\<close>, and the
  parse of the file stops with \<open>ValueError\<close> before anything is added to the graph.  The
  same line with no colon in the file name gives 20, and a line with no marker gives -1
  (in general: lemmas \<open>src_line_no_marker\<close> and \<open>src_line_no_absent\<close> above).
\<close>

theorem src_line_no_colon_before_marker:
  "findall_first ''{   1}     foo() <int foo (void) at C:/a.c:20>:'' = Some '':/a.c:20>''
   \<and> py_int ''/a.c:20'' = None
   \<and> src_line_no ''{   1}     foo() <int foo (void) at C:/a.c:20>:'' = Inl ValueError
   \<and> parse_line ''{   1}     foo() <int foo (void) at C:/a.c:20>:'' = Inl ValueError
   \<and> cflow2nx ''{   1}     foo() <int foo (void) at C:/a.c:20>:'' ''a.c''
       = Inl (ValueError, init_state)
   \<and> src_line_no ''{   1}     foo() <int foo (void) at a.c:20>:'' = Inr 20
   \<and> src_line_no ''{   1}     bar()'' = Inr (- 1)"
  by code_simp

section \<open>Properties of the cross-graph resolver\<close>

text \<open>
  Claim C7.  For graphs whose nodes carry the attributes that the parser gives them (as
  every graph returned by \<open>cflow2nx\<close> does, lemma \<open>cflow2nx_attributed\<close>),
  \<open>node_defined_in_other_src\<close> returns true exactly when some graph of the list has the
  node with a source line other than -1, and false for the empty list.  The function is
  a fold that reads the graphs and returns a flag only: it has no graph to write to.
\<close>

theorem node_defined_in_other_src_iff:
  assumes "\<forall>g \<in> set other_graphs. attributed g"
  shows "node_defined_in_other_src node other_graphs
           = Inr (\<exists>g \<in> set other_graphs. \<exists>a s. map_of (nodes g) node = Some a
                                     \<and> map_of a ''src_line'' = Some s \<and> s \<noteq> - 1)
       \<and> node_defined_in_other_src node [] = Inr False"
  using node_defined_loop_result [OF assms, of node False]
  by (simp add: node_defined_in_other_src_def)

theorem node_defined_in_other_src_iff_witness:
  "node_defined_in_other_src ''helper''
     [\<lparr>nodes = [(''main'', [(''nest_level'', 0), (''src_line'', 3)]),
                (''helper'', [(''nest_level'', 1), (''src_line'', 42)])],
       edges = [(''main'', ''helper'')]\<rparr>] = Inr True
   \<and> node_defined_in_other_src ''helper'' [] = Inr False"
proof -
  let ?B = "\<lparr>nodes = [(''main'', [(''nest_level'', 0), (''src_line'', 3)]),
                      (''helper'', [(''nest_level'', 1), (''src_line'', 42)])],
             edges = [(''main'', ''helper'')]\<rparr>"
  have made: "cflow2nx (''{   0} main() <int main (void) at b.c:3>:'' @ [newline]
                @ ''{   1}     helper() <int helper (void) at b.c:42>'' @ [newline]) ''b.c'' = Inr ?B"
    by code_simp
  have att: "\<forall>g \<in> set [?B]. attributed g"
    using cflow2nx_attributed [OF made] by simp
  have ex: "\<exists>g \<in> set [?B]. \<exists>a s. map_of (nodes g) ''helper'' = Some a
              \<and> map_of a ''src_line'' = Some s \<and> s \<noteq> - 1"
    by simp
  from node_defined_in_other_src_iff [OF att, of "''helper''"] ex show ?thesis
    by simp
qed

section \<open>Properties of the labels\<close>

text \<open>
  Claim C10.  In multi-page mode the label of a node with a known source line is
  \<open>\\descitem{node}\n\<close> followed by the visible text, and the label of a node without
  one that is defined elsewhere is \<open>\\descref[\<close>visible text\<open>]{node}\<close>.  Between the
  braces stands the node identifier as it is; only the visible text goes through
  \<open>_escape_underscores\<close>, which with \<open>for_latex\<close> puts two backslashes before each
  underscore and otherwise changes nothing.
\<close>

theorem multi_page_label:
  "fst (choose_node_format node nest_level src_line defined_somewhere for_latex True) =
     (if src_line \<noteq> - 1
      then [bslash, bslash] @ ''descitem{'' @ node @ ''}'' @ [bslash, CHR ''n'']
             @ escape_underscores node for_latex @ [bslash, CHR ''n''] @ py_str src_line
      else if defined_somewhere
           then [bslash, bslash] @ ''descref['' @ escape_underscores node for_latex
                  @ '']{'' @ node @ ''}''
           else escape_underscores node for_latex)
   \<and> escape_underscores node True
       = concat (map (\<lambda>c. if c = CHR ''_'' then [bslash, bslash, CHR ''_''] else [c]) node)
   \<and> escape_underscores node False = node"
  by (simp add: choose_node_format_def escape_underscores_def Let_def)

theorem multi_page_label_witness:
  "fst (choose_node_format ''a_b'' 1 5 False True True)
     = [bslash, bslash] @ ''descitem{a_b}'' @ [bslash, CHR ''n'']
         @ ''a'' @ [bslash, bslash] @ ''_b'' @ [bslash, CHR ''n''] @ ''5''
   \<and> fst (choose_node_format ''a_b'' 1 (- 1) True True True)
     = [bslash, bslash] @ ''descref[a'' @ [bslash, bslash] @ ''_b]{a_b}''"
proof -
  have five: "py_str 5 = ''5''"
    by code_simp
  have esc: "escape_underscores ''a_b'' True = ''a'' @ [bslash, bslash] @ ''_b''"
    using multi_page_label [of "''a_b''" 1 5 False True] by simp
  have item: "fst (choose_node_format ''a_b'' 1 5 False True True)
     = [bslash, bslash] @ ''descitem{a_b}'' @ [bslash, CHR ''n'']
         @ ''a'' @ [bslash, bslash] @ ''_b'' @ [bslash, CHR ''n''] @ ''5''"
    using multi_page_label [of "''a_b''" 1 5 False True] by (simp add: five)
  have ref: "fst (choose_node_format ''a_b'' 1 (- 1) True True True)
     = [bslash, bslash] @ ''descref[a'' @ [bslash, bslash] @ ''_b]{a_b}''"
    using multi_page_label [of "''a_b''" 1 "- 1" True True] by simp
  from item ref show ?thesis by (rule conjI)
qed

end
